theory Spec2Isabelle
  imports Main "HOL-Library.Word"
begin

section \<open>Data model of WebHelper.js\<close>

type_synonym bytes = "8 word list"

text \<open>An AssetType as \<open>load\<close> and \<open>addSource\<close> read it: the fields \<open>name\<close> and
  \<open>runtimeFormat\<close>.\<close>

record asset_type =
  name :: string
  runtimeFormat :: string

text \<open>Modelled from the spec: the class Asset (required from ./Asset) is not part of the
  source at hand. The spec gives it as a value object that is constructed empty from
  \<open>(assetType, assetId)\<close> and has one mutating operation that stores the raw bytes together
  with the format.\<close>

record asset =
  a_assetType :: asset_type
  a_assetId :: string
  a_data :: "bytes option"
  a_dataFormat :: "string option"

text \<open>Modelled from the spec: \<open>new Asset(assetType, assetId)\<close> builds the empty value.\<close>

definition new_Asset :: "asset_type \<Rightarrow> string \<Rightarrow> asset" where
  "new_Asset t i = \<lparr>a_assetType = t, a_assetId = i, a_data = None, a_dataFormat = None\<rparr>"

text \<open>Modelled from the spec: \<open>asset.setData(body, format)\<close>, the single populate
  operation, stores both the bytes and the format.\<close>

definition setData :: "asset \<Rightarrow> bytes \<Rightarrow> string \<Rightarrow> asset" where
  "setData a b f = a\<lparr>a_data := Some b, a_dataFormat := Some f\<rparr>"

text \<open>A SourceRecord: the names of the asset types the source serves, and its UrlFunction.
  The UrlFunction is a total function without side effects here: the declared type says it
  is a function (so \<open>if (urlFunction)\<close> is true for every registered one), and the model
  does not cover one that throws or that writes to the asset it is given.\<close>

record source_record =
  types :: "string list"
  urlFunction :: "asset \<Rightarrow> string"

text \<open>What a call of \<open>got(url, options)\<close> settles with: the promise is fulfilled with a
  response, of which the code reads \<open>status\<close> and \<open>body\<close>, or it is rejected with an
  error (opaque here).\<close>

record response =
  status :: int
  body :: bytes

datatype fetch_outcome = Response response | Error string

text \<open>The client \<open>got\<close> that line 1 requires is a library outside the source at hand. It
  fulfils its promise only when the server's answer has a status in \<open>[200, 300)\<close>; for
  every other status, 404 included, it rejects with an HTTPError. \<open>got_delivers r\<close> is
  what a call of \<open>got\<close> settles with when the server answers with \<open>r\<close>.\<close>

definition got_delivers :: "response \<Rightarrow> fetch_outcome" where
  "got_delivers r =
     (if 200 \<le> status r \<and> status r < 300 then Response r else Error ''HTTPError'')"

text \<open>An entry of the local array \<open>errors\<close>: \<open>{url: url, result: response}\<close> or
  \<open>{url: url, result: error}\<close>.\<close>

record error_entry =
  url :: string
  result :: fetch_outcome

subsection \<open>The store of source arrays\<close>

text \<open>\<open>this.sources\<close> and the copy made by \<open>this.sources.slice()\<close> are two array objects.
  An array object is an address into a store; a fresh array gets the next free address.
  The records inside an array are never written after their creation, so they are kept
  as values.\<close>

type_synonym addr = nat
type_synonym store = "source_record list list"

definition alloc :: "source_record list \<Rightarrow> store \<Rightarrow> addr \<times> store" where
  "alloc xs h = (length h, h @ [xs])"

definition array_push :: "addr \<Rightarrow> source_record \<Rightarrow> store \<Rightarrow> store" where
  "array_push a x h = (if a < length h then h[a := (h ! a) @ [x]] else h)"

definition array_slice :: "addr \<Rightarrow> store \<Rightarrow> addr \<times> store" where
  "array_slice a h = alloc (h ! a) h"

text \<open>The first index at which \<open>x\<close> occurs, or \<open>-1\<close>: \<open>Array.prototype.indexOf\<close> on an
  array of strings.\<close>

fun indexOf_from :: "string list \<Rightarrow> string \<Rightarrow> int \<Rightarrow> int" where
  "indexOf_from [] x k = - 1"
| "indexOf_from (y # ys) x k = (if y = x then k else indexOf_from ys x (k + 1))"

definition indexOf :: "string list \<Rightarrow> string \<Rightarrow> int" where
  "indexOf ys x = indexOf_from ys x 0"

section \<open>The class WebHelper\<close>

text \<open>A WebHelper object: its one field \<open>this.sources\<close> holds an array object.\<close>

record web_helper =
  this_sources :: addr

text \<open>The constructor: \<open>this.sources = []\<close>.\<close>

definition new_WebHelper :: "store \<Rightarrow> web_helper \<times> store" where
  "new_WebHelper h = (case alloc [] h of (a, h') \<Rightarrow> (\<lparr>this_sources = a\<rparr>, h'))"

text \<open>\<open>addSource (types, urlFunction)\<close> pushes one record, with the names of the given
  asset types.\<close>

definition addSource :: "web_helper \<Rightarrow> asset_type list \<Rightarrow> (asset \<Rightarrow> string) \<Rightarrow> store \<Rightarrow> store" where
  "addSource this tys f h =
     array_push (this_sources this) \<lparr>types = map name tys, urlFunction = f\<rparr> h"

subsection \<open>load\<close>

text \<open>What one call of \<open>load\<close> does that can be seen from outside, in order: the
  invocation of the UrlFunction of the source at an index of the copied array, the call
  of \<open>got\<close> with a URL, the call of \<open>asset.setData\<close>, and the calls of the promise's
  \<open>fulfill\<close> (with the asset, or with null) and \<open>reject\<close>.\<close>

datatype event =
    UrlFunctionCall nat
  | GotCall string
  | SetDataCall bytes string
  | FulfillCall "asset option"
  | RejectCall "error_entry list"

text \<open>The variables of one call of \<open>load\<close> that its closures share: \<open>errors\<close>,
  \<open>sources\<close> (the copy), \<open>asset\<close> and \<open>sourceIndex\<close>. \<open>pending\<close> is the URL of the call
  of \<open>got\<close> whose two callbacks are registered and have not run; \<open>trace\<close> records the
  events so far.\<close>

record load_state =
  errors :: "error_entry list"
  sources :: addr
  asset :: asset
  sourceIndex :: nat
  pending :: "string option"
  trace :: "event list"

text \<open>The \<open>while\<close> loop of \<open>tryNextSource\<close> over the array's contents: it returns the
  value of \<open>urlFunction\<close> after the loop (\<open>None\<close> for undefined) and the new
  \<open>sourceIndex\<close>.\<close>

function while_loop :: "source_record list \<Rightarrow> string \<Rightarrow> nat \<Rightarrow> (asset \<Rightarrow> string) option \<times> nat" where
  "while_loop srcs nm i =
     (if i < length srcs then
        (let source = srcs ! i; i' = Suc i in
           if indexOf (types source) nm \<ge> 0 then (Some (urlFunction source), i')
           else while_loop srcs nm i')
      else (None, i))"
  by pat_completeness auto
termination
  by (relation "measure (\<lambda>(srcs, nm, i). length srcs - i)") auto

declare while_loop.simps [simp del]

text \<open>\<open>tryNextSource\<close>: after the loop, either the UrlFunction found is invoked on the
  asset and \<open>got\<close> is called with the URL (the source read last is at
  \<open>sourceIndex - 1\<close>), or the promise is rejected with \<open>errors\<close>, or fulfilled with
  null.\<close>

definition tryNextSource :: "asset_type \<Rightarrow> store \<Rightarrow> load_state \<Rightarrow> load_state" where
  "tryNextSource assetType h st =
     (case while_loop (h ! sources st) (name assetType) (sourceIndex st) of
        (Some f, i) \<Rightarrow>
          (let u = f (asset st) in
             st\<lparr>sourceIndex := i, pending := Some u,
                trace := trace st @ [UrlFunctionCall (i - 1), GotCall u]\<rparr>)
      | (None, i) \<Rightarrow>
          if length (errors st) > 0
          then st\<lparr>sourceIndex := i, trace := trace st @ [RejectCall (errors st)]\<rparr>
          else st\<lparr>sourceIndex := i, trace := trace st @ [FulfillCall None]\<rparr>)"

text \<open>The first callback of \<open>got(url, options).then\<close>, for the URL \<open>u\<close> of that call.\<close>

definition on_response :: "asset_type \<Rightarrow> store \<Rightarrow> string \<Rightarrow> response \<Rightarrow> load_state \<Rightarrow> load_state" where
  "on_response assetType h u r st =
     (if status r < 200 \<or> status r \<ge> 300 then
        tryNextSource assetType h
          (if status r \<noteq> 404
           then st\<lparr>errors := errors st @ [\<lparr>url = u, result = Response r\<rparr>]\<rparr>
           else st)
      else
        (let a = setData (asset st) (body r) (runtimeFormat assetType) in
           st\<lparr>asset := a,
              trace := trace st @
                [SetDataCall (body r) (runtimeFormat assetType), FulfillCall (Some a)]\<rparr>))"

text \<open>The second callback, for a rejected \<open>got\<close>.\<close>

definition on_error :: "asset_type \<Rightarrow> store \<Rightarrow> string \<Rightarrow> string \<Rightarrow> load_state \<Rightarrow> load_state" where
  "on_error assetType h u e st =
     tryNextSource assetType h (st\<lparr>errors := errors st @ [\<lparr>url = u, result = Error e\<rparr>]\<rparr>)"

text \<open>The outstanding call of \<open>got\<close> settles: the matching callback runs, once. With no
  call outstanding there is nothing to settle. A call of \<open>got\<close> that never settles is a
  run in which no such step follows: the state keeps its \<open>pending\<close> URL.\<close>

definition got_settles :: "asset_type \<Rightarrow> store \<Rightarrow> fetch_outcome \<Rightarrow> load_state \<Rightarrow> load_state" where
  "got_settles assetType h oc st =
     (case pending st of
        None \<Rightarrow> st
      | Some u \<Rightarrow>
          (case oc of
             Response r \<Rightarrow> on_response assetType h u r (st\<lparr>pending := None\<rparr>)
           | Error e \<Rightarrow> on_error assetType h u e (st\<lparr>pending := None\<rparr>)))"

text \<open>\<open>load (assetType, assetId)\<close> up to its return: the locals are set up, the array is
  copied, and the promise's executor calls \<open>tryNextSource\<close> once.\<close>

definition load :: "web_helper \<Rightarrow> asset_type \<Rightarrow> string \<Rightarrow> store \<Rightarrow> load_state \<times> store" where
  "load this assetType assetId h =
     (case array_slice (this_sources this) h of
        (s, h') \<Rightarrow>
          (tryNextSource assetType h'
             \<lparr>errors = [], sources = s, asset = new_Asset assetType assetId,
              sourceIndex = 0, pending = None, trace = []\<rparr>, h'))"

subsection \<open>What happens while a call of load is in flight\<close>

text \<open>Between the return of \<open>load\<close> and the settling of its promise, the outstanding
  \<open>got\<close> may settle, and other code may call \<open>addSource\<close> on the same helper.\<close>

datatype action =
    GotSettles fetch_outcome
  | AddSource "asset_type list" "asset \<Rightarrow> string"

fun step :: "web_helper \<Rightarrow> asset_type \<Rightarrow> action \<Rightarrow> load_state \<times> store \<Rightarrow> load_state \<times> store" where
  "step this assetType (GotSettles oc) (st, h) = (got_settles assetType h oc st, h)"
| "step this assetType (AddSource tys f) (st, h) = (st, addSource this tys f h)"

fun run :: "web_helper \<Rightarrow> asset_type \<Rightarrow> action list \<Rightarrow> load_state \<times> store \<Rightarrow> load_state \<times> store" where
  "run this assetType [] s = s"
| "run this assetType (a # as) s = run this assetType as (step this assetType a s)"

text \<open>A call of \<open>load\<close> followed by the given actions.\<close>

definition exec :: "web_helper \<Rightarrow> asset_type \<Rightarrow> string \<Rightarrow> store \<Rightarrow> action list \<Rightarrow> load_state \<times> store" where
  "exec this assetType assetId h as = run this assetType as (load this assetType assetId h)"

section \<open>Notions used to state the properties\<close>

text \<open>The indices, from \<open>i\<close> on, of the sources of an array whose \<open>types\<close> contain the
  name \<open>nm\<close>, in the order of the array.\<close>

definition matching :: "source_record list \<Rightarrow> string \<Rightarrow> nat \<Rightarrow> nat list" where
  "matching srcs nm i = filter (\<lambda>j. nm \<in> set (types (srcs ! j))) [i..<length srcs]"

text \<open>What the calls of \<open>got\<close> settle with in a list of actions, in order, and the records
  that its calls of \<open>addSource\<close> push.\<close>

fun outcomes :: "action list \<Rightarrow> fetch_outcome list" where
  "outcomes [] = []"
| "outcomes (GotSettles oc # as) = oc # outcomes as"
| "outcomes (AddSource tys f # as) = outcomes as"

fun added :: "action list \<Rightarrow> source_record list" where
  "added [] = []"
| "added (GotSettles oc # as) = added as"
| "added (AddSource tys f # as) = \<lparr>types = map name tys, urlFunction = f\<rparr> # added as"

text \<open>Readings of a trace: the indices of the sources whose UrlFunction was invoked, the
  URLs \<open>got\<close> was called with, the calls of \<open>fulfill\<close> and \<open>reject\<close>, and the arguments
  of the calls of \<open>setData\<close>.\<close>

fun probes :: "event list \<Rightarrow> nat list" where
  "probes [] = []"
| "probes (UrlFunctionCall i # es) = i # probes es"
| "probes (_ # es) = probes es"

fun fetches :: "event list \<Rightarrow> string list" where
  "fetches [] = []"
| "fetches (GotCall u # es) = u # fetches es"
| "fetches (_ # es) = fetches es"

fun promise_calls :: "event list \<Rightarrow> event list" where
  "promise_calls [] = []"
| "promise_calls (FulfillCall a # es) = FulfillCall a # promise_calls es"
| "promise_calls (RejectCall e # es) = RejectCall e # promise_calls es"
| "promise_calls (_ # es) = promise_calls es"

fun setData_calls :: "event list \<Rightarrow> (bytes \<times> string) list" where
  "setData_calls [] = []"
| "setData_calls (SetDataCall b f # es) = (b, f) # setData_calls es"
| "setData_calls (_ # es) = setData_calls es"

text \<open>The three kinds of outcome of a fetch: a response with a status in \<open>[200, 300)\<close>, a
  response with status 404, and every other one (an error of the transport, or a response
  with another status).\<close>

fun is_success :: "fetch_outcome \<Rightarrow> bool" where
  "is_success (Response r) = (200 \<le> status r \<and> status r < 300)"
| "is_success (Error e) = False"

fun is_miss :: "fetch_outcome \<Rightarrow> bool" where
  "is_miss (Response r) = (status r = 404)"
| "is_miss (Error e) = False"

definition is_failure :: "fetch_outcome \<Rightarrow> bool" where
  "is_failure oc = (\<not> is_success oc \<and> \<not> is_miss oc)"

text \<open>The number of sources probed when the fetches settle with \<open>os\<close>: one more than the
  outcomes before the first success. The entries of \<open>errors\<close> that the outcomes \<open>os\<close> of
  the sources \<open>ms\<close> leave: one for each outcome that is not a 404, with the URL of its
  source.\<close>

definition attempts :: "fetch_outcome list \<Rightarrow> nat" where
  "attempts os = Suc (length (takeWhile (\<lambda>oc. \<not> is_success oc) os))"

definition recorded :: "source_record list \<Rightarrow> asset \<Rightarrow> nat list \<Rightarrow> fetch_outcome list \<Rightarrow> error_entry list" where
  "recorded srcs a ms os =
     map (\<lambda>(j, oc). \<lparr>url = urlFunction (srcs ! j) a, result = oc\<rparr>)
       (filter (\<lambda>(j, oc). \<not> is_miss oc) (zip ms os))"

subsection \<open>The walk over the matching sources, as a function of the outcomes\<close>

text \<open>The state of a call of load before its first \<open>tryNextSource\<close>, with the copy of the
  array at \<open>s\<close>.\<close>

definition initial :: "addr \<Rightarrow> asset_type \<Rightarrow> string \<Rightarrow> load_state" where
  "initial s T i =
     \<lparr>errors = [], sources = s, asset = new_Asset T i, sourceIndex = 0, pending = None,
      trace = []\<rparr>"

text \<open>The four things that happen to the state: a source is probed, the sources are
  exhausted, a fetch succeeds, a fetch is dismissed (recorded unless it is a 404).\<close>

definition probe :: "source_record list \<Rightarrow> nat \<Rightarrow> load_state \<Rightarrow> load_state" where
  "probe srcs j st =
     st\<lparr>sourceIndex := Suc j, pending := Some (urlFunction (srcs ! j) (asset st)),
        trace := trace st @ [UrlFunctionCall j, GotCall (urlFunction (srcs ! j) (asset st))]\<rparr>"

definition exhausted :: "nat \<Rightarrow> load_state \<Rightarrow> load_state" where
  "exhausted n st =
     st\<lparr>sourceIndex := max (sourceIndex st) n,
        trace := trace st @ [if errors st = [] then FulfillCall None else RejectCall (errors st)]\<rparr>"

definition succeed :: "asset_type \<Rightarrow> response \<Rightarrow> load_state \<Rightarrow> load_state" where
  "succeed T r st =
     st\<lparr>asset := setData (asset st) (body r) (runtimeFormat T), pending := None,
        trace := trace st @ [SetDataCall (body r) (runtimeFormat T),
                 FulfillCall (Some (setData (asset st) (body r) (runtimeFormat T)))]\<rparr>"

definition dismiss :: "string \<Rightarrow> fetch_outcome \<Rightarrow> load_state \<Rightarrow> load_state" where
  "dismiss u oc st =
     st\<lparr>pending := None,
        errors := (if is_miss oc then errors st else errors st @ [\<lparr>url = u, result = oc\<rparr>])\<rparr>"

text \<open>The state that the walk over the matching sources \<open>ms\<close> reaches when the fetches
  settle with \<open>os\<close>. It is not part of the program: \<open>run_tryNextSource\<close> below proves that
  the program computes it, whatever calls of \<open>addSource\<close> come in between.\<close>

fun resolve :: "asset_type \<Rightarrow> source_record list \<Rightarrow> nat list \<Rightarrow> fetch_outcome list \<Rightarrow> load_state \<Rightarrow> load_state" where
  "resolve T srcs [] os st = exhausted (length srcs) st"
| "resolve T srcs (j # js) [] st = probe srcs j st"
| "resolve T srcs (j # js) (oc # os) st =
     (case oc of
        Response r \<Rightarrow>
          if is_success oc then succeed T r (probe srcs j st)
          else resolve T srcs js os (dismiss (urlFunction (srcs ! j) (asset st)) oc (probe srcs j st))
      | Error e \<Rightarrow>
          resolve T srcs js os (dismiss (urlFunction (srcs ! j) (asset st)) oc (probe srcs j st)))"

subsection \<open>A registry of three sources\<close>

text \<open>A store with one array, the sources of a helper: the first source serves images, the
  second sounds and images, the third sounds.\<close>

definition ex_sound :: asset_type where
  "ex_sound = \<lparr>name = ''Sound'', runtimeFormat = ''wav''\<rparr>"

definition ex_image :: asset_type where
  "ex_image = \<lparr>name = ''Image'', runtimeFormat = ''png''\<rparr>"

definition ex_store :: store where
  "ex_store =
     [[\<lparr>types = [''Image''], urlFunction = (\<lambda>a. ''i/'' @ a_assetId a)\<rparr>,
       \<lparr>types = [''Sound'', ''Image''], urlFunction = (\<lambda>a. ''x/'' @ a_assetId a)\<rparr>,
       \<lparr>types = [''Sound''], urlFunction = (\<lambda>a. ''y/'' @ a_assetId a)\<rparr>]]"

definition ex_helper :: web_helper where
  "ex_helper = \<lparr>this_sources = 0\<rparr>"

definition ex_response :: "int \<Rightarrow> fetch_outcome" where
  "ex_response s = Response \<lparr>status = s, body = [1, 2]\<rparr>"

definition ex_project :: asset_type where
  "ex_project = \<lparr>name = ''Project'', runtimeFormat = ''json''\<rparr>"

section \<open>The loop, the callbacks and the store\<close>

subsection \<open>Lists\<close>

lemma takeWhile_all: "list_all P xs \<Longrightarrow> takeWhile P xs = xs"
  by (induction xs) simp_all

lemma takeWhile_covers:
  "n \<le> length os \<Longrightarrow> list_all P (take n os) \<Longrightarrow> n \<le> length (takeWhile P os)"
proof (induction os arbitrary: n)
  case Nil
  then show ?case by simp
next
  case (Cons x xs)
  then show ?case by (cases n) simp_all
qed

lemma zip_filter_all:
  "list_all P (take (length ms) os) \<Longrightarrow> filter (\<lambda>(j, oc). P oc) (zip ms os) = zip ms os"
proof (induction ms arbitrary: os)
  case Nil
  then show ?case by simp
next
  case (Cons m ms)
  then show ?case by (cases os) simp_all
qed

lemma list_all_weaken: "list_all P xs \<Longrightarrow> (\<And>x. P x \<Longrightarrow> Q x) \<Longrightarrow> list_all Q xs"
  by (induction xs) simp_all

subsection \<open>indexOf and the matching sources\<close>

lemma indexOf_from_ge: "0 \<le> k \<Longrightarrow> (0 \<le> indexOf_from ys x k) = (x \<in> set ys)"
  by (induction ys arbitrary: k) auto

lemma indexOf_ge0: "(0 \<le> indexOf ys x) = (x \<in> set ys)"
  by (simp add: indexOf_def indexOf_from_ge)

lemma matching_step:
  "i < length srcs \<Longrightarrow>
   matching srcs nm i =
     (if nm \<in> set (types (srcs ! i)) then i # matching srcs nm (Suc i)
      else matching srcs nm (Suc i))"
  by (simp add: matching_def upt_conv_Cons)

lemma matching_beyond: "length srcs \<le> i \<Longrightarrow> matching srcs nm i = []"
  by (simp add: matching_def)

lemma matching_Cons:
  "matching srcs nm i = j # js \<Longrightarrow>
   js = matching srcs nm (Suc j) \<and> i \<le> j \<and> j < length srcs \<and> nm \<in> set (types (srcs ! j))"
proof (induction srcs nm i rule: while_loop.induct)
  case (1 srcs nm i)
  show ?case
  proof (cases "i < length srcs")
    case False
    with "1.prems" show ?thesis by (simp add: matching_beyond)
  next
    case True
    show ?thesis
    proof (cases "nm \<in> set (types (srcs ! i))")
      case yes: True
      with True "1.prems" show ?thesis by (auto simp: matching_step)
    next
      case no: False
      with True "1.prems" have "matching srcs nm (Suc i) = j # js"
        by (simp add: matching_step)
      with "1.IH" [OF True refl refl] no show ?thesis
        by (simp add: indexOf_ge0)
    qed
  qed
qed

lemma matching_sorted: "sorted_wrt (<) (matching srcs nm i)"
  by (simp add: matching_def sorted_wrt_filter)

lemma matching_set:
  "(j \<in> set (matching srcs nm i)) = (i \<le> j \<and> j < length srcs \<and> nm \<in> set (types (srcs ! j)))"
  by (auto simp: matching_def)

lemma matching_length: "length (matching srcs nm i) \<le> length srcs"
proof -
  have "length (matching srcs nm i) \<le> length [i..<length srcs]"
    unfolding matching_def by (rule length_filter_le)
  then show ?thesis by simp
qed

lemma matching_none:
  "list_all (\<lambda>s. nm \<notin> set (types s)) srcs \<Longrightarrow> matching srcs nm 0 = []"
  by (auto simp: matching_def filter_empty_conv list_all_iff)

subsection \<open>The while loop and tryNextSource\<close>

text \<open>The loop stops at the first matching source at or after \<open>sourceIndex\<close>, and leaves
  \<open>sourceIndex\<close> just behind it; with no such source it runs to the end of the array.\<close>

lemma while_loop_matching:
  "while_loop srcs nm i =
     (case matching srcs nm i of
        [] \<Rightarrow> (None, max i (length srcs))
      | j # js \<Rightarrow> (Some (urlFunction (srcs ! j)), Suc j))"
proof (induction srcs nm i rule: while_loop.induct)
  case (1 srcs nm i)
  show ?case
  proof (cases "i < length srcs")
    case False
    then show ?thesis
      by (subst while_loop.simps) (simp add: matching_beyond max_def)
  next
    case True
    show ?thesis
    proof (cases "nm \<in> set (types (srcs ! i))")
      case yes: True
      with True show ?thesis
        by (subst while_loop.simps) (simp add: matching_step indexOf_ge0)
    next
      case no: False
      with True "1.IH" [OF True refl refl] have
        "while_loop srcs nm (Suc i) =
           (case matching srcs nm (Suc i) of
              [] \<Rightarrow> (None, max (Suc i) (length srcs))
            | j # js \<Rightarrow> (Some (urlFunction (srcs ! j)), Suc j))"
        by (simp add: indexOf_ge0)
      moreover from True have "max (Suc i) (length srcs) = max i (length srcs)"
        by simp
      ultimately show ?thesis using True no
        by (subst while_loop.simps) (auto simp: matching_step indexOf_ge0 split: list.splits)
    qed
  qed
qed

lemma while_loop_ge: "i \<le> snd (while_loop srcs nm i)"
  by (auto simp: while_loop_matching split: list.splits dest: matching_Cons)

lemma tryNextSource_eq:
  "h ! sources st = srcs \<Longrightarrow>
   tryNextSource T h st =
     (case matching srcs (name T) (sourceIndex st) of
        [] \<Rightarrow> exhausted (length srcs) st
      | j # js \<Rightarrow> probe srcs j st)"
  by (auto simp: tryNextSource_def while_loop_matching exhausted_def probe_def Let_def
      split: list.splits)

lemma tryNextSource_sourceIndex: "sourceIndex st \<le> sourceIndex (tryNextSource T h st)"
  using while_loop_ge [of "sourceIndex st" "h ! sources st" "name T"]
  by (auto simp: tryNextSource_def Let_def split: prod.splits option.splits)

lemma errors_tryNextSource: "errors (tryNextSource T h st) = errors st"
  by (simp add: tryNextSource_def Let_def split: prod.splits option.splits)

subsection \<open>The callbacks of got\<close>

lemma got_settles_idle: "pending st = None \<Longrightarrow> got_settles T h oc st = st"
  by (simp add: got_settles_def)

lemma got_settles_probe:
  "h ! sources st = srcs \<Longrightarrow>
   got_settles T h oc (probe srcs j st) =
     (case oc of
        Response r \<Rightarrow>
          if is_success oc then succeed T r (probe srcs j st)
          else tryNextSource T h (dismiss (urlFunction (srcs ! j) (asset st)) oc (probe srcs j st))
      | Error e \<Rightarrow>
          tryNextSource T h (dismiss (urlFunction (srcs ! j) (asset st)) oc (probe srcs j st)))"
  by (cases oc)
    (auto simp: got_settles_def on_response_def on_error_def probe_def succeed_def dismiss_def
      Let_def)

lemma got_settles_success:
  "pending st = Some u \<Longrightarrow> 200 \<le> status r \<Longrightarrow> status r < 300 \<Longrightarrow>
   got_settles T h (Response r) st = succeed T r st"
  by (simp add: got_settles_def on_response_def succeed_def Let_def)

lemma got_settles_miss:
  "pending st = Some u \<Longrightarrow> status r = 404 \<Longrightarrow>
   got_settles T h (Response r) st = tryNextSource T h (st\<lparr>pending := None\<rparr>)"
  by (simp add: got_settles_def on_response_def)

lemma got_delivers_not_miss: "\<not> is_miss (got_delivers r)"
  by (simp add: got_delivers_def)

lemma got_delivers_404: "status r = 404 \<Longrightarrow> got_delivers r = Error ''HTTPError''"
  by (simp add: got_delivers_def)

lemma got_settles_sourceIndex: "sourceIndex st \<le> sourceIndex (got_settles T h oc st)"
proof (cases "pending st")
  case None
  then show ?thesis by (simp add: got_settles_def)
next
  case (Some u)
  show ?thesis
  proof (cases oc)
    case (Error e)
    with Some tryNextSource_sourceIndex
      [of "st\<lparr>pending := None, errors := errors st @ [\<lparr>url = u, result = Error e\<rparr>]\<rparr>" T h]
    show ?thesis by (simp add: got_settles_def on_error_def)
  next
    case (Response r)
    with Some tryNextSource_sourceIndex [of "st\<lparr>pending := None\<rparr>" T h]
      tryNextSource_sourceIndex
      [of "st\<lparr>pending := None, errors := errors st @ [\<lparr>url = u, result = Response r\<rparr>]\<rparr>" T h]
    show ?thesis by (simp add: got_settles_def on_response_def Let_def)
  qed
qed

subsection \<open>Runs and the store\<close>

lemma run_idle: "pending st = None \<Longrightarrow> fst (run this T as (st, h)) = st"
proof (induction as arbitrary: h)
  case Nil
  show ?case by simp
next
  case (Cons a as)
  then show ?case by (cases a) (simp_all add: got_settles_idle)
qed

lemma run_append:
  "run this T (as @ bs) s = run this T bs (run this T as s)"
  by (induction as arbitrary: s) simp_all

lemma run_sourceIndex: "sourceIndex st \<le> sourceIndex (fst (run this T bs (st, h)))"
proof (induction bs arbitrary: st h)
  case Nil
  show ?case by simp
next
  case (Cons b bs)
  show ?case
  proof (cases b)
    case (AddSource tys f)
    with Cons show ?thesis by simp
  next
    case (GotSettles oc)
    have "sourceIndex st \<le> sourceIndex (got_settles T h oc st)"
      by (rule got_settles_sourceIndex)
    also have "\<dots> \<le> sourceIndex (fst (run this T bs (got_settles T h oc st, h)))"
      by (rule Cons.IH)
    finally show ?thesis using GotSettles by simp
  qed
qed

lemma addSource_length: "length (addSource this tys f h) = length h"
  by (simp add: addSource_def array_push_def)

lemma addSource_other: "a \<noteq> this_sources this \<Longrightarrow> addSource this tys f h ! a = h ! a"
  by (simp add: addSource_def array_push_def)

lemma addSource_self:
  "this_sources this < length h \<Longrightarrow>
   addSource this tys f h ! this_sources this =
     h ! this_sources this @ [\<lparr>types = map name tys, urlFunction = f\<rparr>]"
  by (simp add: addSource_def array_push_def)

lemma run_store:
  "a = this_sources this \<Longrightarrow> a < length h \<Longrightarrow>
   snd (run this T as (st, h)) = h[a := h ! a @ added as]"
proof (induction as arbitrary: st h)
  case Nil
  then show ?case by simp
next
  case (Cons x as)
  then show ?case
    by (cases x) (simp_all add: addSource_def array_push_def)
qed

lemma load_eq:
  "load this T i h =
     (tryNextSource T (h @ [h ! this_sources this]) (initial (length h) T i),
      h @ [h ! this_sources this])"
  by (simp add: load_def array_slice_def alloc_def initial_def)

lemma exec_append:
  "exec this T i h (as @ bs) = run this T bs (exec this T i h as)"
  by (simp add: exec_def run_append)

lemma exec_snoc:
  "exec this T i h (as @ a # bs) = run this T bs (step this T a (exec this T i h as))"
  by (simp add: exec_def run_append)

lemma exec_store:
  assumes "this_sources this < length h"
  shows "snd (exec this T i h as) =
     (h @ [h ! this_sources this])[this_sources this := h ! this_sources this @ added as]"
proof -
  have "snd (exec this T i h as) =
      (h @ [h ! this_sources this])[this_sources this :=
         (h @ [h ! this_sources this]) ! this_sources this @ added as]"
    unfolding exec_def load_eq using assms by (intro run_store) simp_all
  with assms show ?thesis by (simp add: nth_append)
qed

subsection \<open>Readings of traces and of lists of actions\<close>

lemma probes_append [simp]: "probes (xs @ ys) = probes xs @ probes ys"
  by (induction xs rule: probes.induct) simp_all

lemma fetches_append [simp]: "fetches (xs @ ys) = fetches xs @ fetches ys"
  by (induction xs rule: fetches.induct) simp_all

lemma promise_calls_append [simp]: "promise_calls (xs @ ys) = promise_calls xs @ promise_calls ys"
  by (induction xs rule: promise_calls.induct) simp_all

lemma setData_calls_append [simp]: "setData_calls (xs @ ys) = setData_calls xs @ setData_calls ys"
  by (induction xs rule: setData_calls.induct) simp_all

lemma outcomes_append [simp]: "outcomes (as @ bs) = outcomes as @ outcomes bs"
  by (induction as rule: outcomes.induct) simp_all

lemma added_append [simp]: "added (as @ bs) = added as @ added bs"
  by (induction as rule: added.induct) simp_all

lemma outcomes_map_GotSettles [simp]: "outcomes (map GotSettles os) = os"
  by (induction os) simp_all

lemma added_map_GotSettles [simp]: "added (map GotSettles os) = []"
  by (induction os) simp_all

lemma in_probes: "(UrlFunctionCall i \<in> set tr) = (i \<in> set (probes tr))"
  by (induction tr rule: probes.induct) auto

subsection \<open>The program computes the walk\<close>

text \<open>Whatever calls of \<open>addSource\<close> come in between, a call of load reaches the state that
  \<open>resolve\<close> gives for the matching sources of the copy and the outcomes of the fetches:
  the copy is at another address than \<open>this.sources\<close>, so the pushes do not reach it.\<close>

lemma initial_simps [simp]:
  "errors (initial s T i) = []" "sources (initial s T i) = s"
  "asset (initial s T i) = new_Asset T i" "sourceIndex (initial s T i) = 0"
  "pending (initial s T i) = None" "trace (initial s T i) = []"
  by (simp_all add: initial_def)

lemma run_tryNextSource:
  "pending st = None \<Longrightarrow> h ! sources st = srcs \<Longrightarrow> sources st \<noteq> this_sources this \<Longrightarrow>
   fst (run this T as (tryNextSource T h st, h)) =
     resolve T srcs (matching srcs (name T) (sourceIndex st)) (outcomes as) st"
proof (induction as arbitrary: st h)
  case Nil
  then show ?case
    by (simp add: tryNextSource_eq split: list.splits)
next
  case (Cons a as)
  show ?case
  proof (cases "matching srcs (name T) (sourceIndex st)")
    case Nil
    with Cons.prems have "tryNextSource T h st = exhausted (length srcs) st"
      by (simp add: tryNextSource_eq)
    moreover from Cons.prems have "pending (exhausted (length srcs) st) = None"
      by (simp add: exhausted_def)
    ultimately show ?thesis using Nil
      by (simp only: run_idle resolve.simps)
  next
    case (Cons j js)
    from matching_Cons [OF Cons] have js: "js = matching srcs (name T) (Suc j)"
      by simp
    from Cons Cons.prems have tn: "tryNextSource T h st = probe srcs j st"
      by (simp add: tryNextSource_eq)
    show ?thesis
    proof (cases a)
      case (AddSource tys f)
      let ?h = "addSource this tys f h"
      from Cons.prems have h: "?h ! sources st = srcs"
        by (simp add: addSource_other)
      with Cons have "tryNextSource T ?h st = probe srcs j st"
        by (simp add: tryNextSource_eq)
      with tn have "run this T (a # as) (tryNextSource T h st, h) =
          run this T as (tryNextSource T ?h st, ?h)"
        using AddSource by simp
      with Cons.IH [OF Cons.prems(1) h Cons.prems(3)] AddSource show ?thesis
        by simp
    next
      case (GotSettles oc)
      let ?p = "probe srcs j st"
      let ?d = "dismiss (urlFunction (srcs ! j) (asset st)) oc ?p"
      have d: "pending ?d = None" "h ! sources ?d = srcs" "sources ?d \<noteq> this_sources this"
        "sourceIndex ?d = Suc j"
        using Cons.prems by (simp_all add: dismiss_def probe_def)
      have next_try: "fst (run this T as (tryNextSource T h ?d, h)) =
          resolve T srcs js (outcomes as) ?d"
        using Cons.IH [OF d(1) d(2) d(3)] js d(4) by simp
      have fin: "fst (run this T as (succeed T r ?p, h)) = succeed T r ?p" for r
        by (rule run_idle) (simp add: succeed_def)
      from Cons.prems have "got_settles T h oc ?p =
          (case oc of
             Response r \<Rightarrow> if is_success oc then succeed T r ?p else tryNextSource T h ?d
           | Error e \<Rightarrow> tryNextSource T h ?d)"
        by (simp add: got_settles_probe)
      with tn GotSettles Cons next_try fin show ?thesis
        by (cases oc) simp_all
    qed
  qed
qed

lemma exec_resolve:
  assumes "this_sources this < length h"
  shows "fst (exec this T i h as) =
     resolve T (h ! this_sources this) (matching (h ! this_sources this) (name T) 0)
       (outcomes as) (initial (length h) T i)"
proof -
  let ?s = "initial (length h) T i"
  have "pending ?s = None" "(h @ [h ! this_sources this]) ! sources ?s = h ! this_sources this"
    "sources ?s \<noteq> this_sources this" "sourceIndex ?s = 0"
    using assms by (simp_all add: initial_def)
  from run_tryNextSource [OF this(1-3)] this(4) show ?thesis
    by (simp add: exec_def load_eq)
qed

subsection \<open>Properties of the walk\<close>

lemmas step_defs = probe_def dismiss_def succeed_def exhausted_def

lemma is_miss_not_success: "is_miss oc \<Longrightarrow> \<not> is_success oc"
  by (cases oc) simp_all

lemma is_failure_not_success: "is_failure oc \<Longrightarrow> \<not> is_success oc"
  by (simp add: is_failure_def)

lemma attempts_all: "list_all (\<lambda>oc. \<not> is_success oc) os \<Longrightarrow> attempts os = Suc (length os)"
  by (simp add: attempts_def takeWhile_all)

lemma attempts_covers:
  "n \<le> length os \<Longrightarrow> list_all (\<lambda>oc. \<not> is_success oc) (take n os) \<Longrightarrow> n \<le> attempts os"
  using takeWhile_covers [of n os "\<lambda>oc. \<not> is_success oc"] by (simp add: attempts_def)

lemma recorded_failures:
  "list_all is_failure (take (length ms) os) \<Longrightarrow>
   recorded srcs a ms os = map (\<lambda>(j, oc). \<lparr>url = urlFunction (srcs ! j) a, result = oc\<rparr>) (zip ms os)"
proof -
  assume "list_all is_failure (take (length ms) os)"
  then have "list_all (\<lambda>oc. \<not> is_miss oc) (take (length ms) os)"
    by (rule list_all_weaken) (simp add: is_failure_def)
  then show ?thesis
    by (simp add: recorded_def zip_filter_all)
qed

lemma resolve_sources: "sources (resolve T srcs ms os st) = sources st"
  by (induction T srcs ms os st rule: resolve.induct)
    (auto simp: step_defs split: fetch_outcome.splits)

lemma resolve_probes:
  "probes (trace (resolve T srcs ms os st)) = probes (trace st) @ take (attempts os) ms"
  by (induction T srcs ms os st rule: resolve.induct)
    (auto simp: step_defs attempts_def split: fetch_outcome.splits)

lemma resolve_fetches:
  "fetches (trace (resolve T srcs ms os st)) =
     fetches (trace st) @ map (\<lambda>j. urlFunction (srcs ! j) (asset st)) (take (attempts os) ms)"
  by (induction T srcs ms os st rule: resolve.induct)
    (auto simp: step_defs attempts_def split: fetch_outcome.splits)

lemma resolve_errors:
  "errors (resolve T srcs ms os st) =
     errors st @ recorded srcs (asset st) ms (takeWhile (\<lambda>oc. \<not> is_success oc) os)"
  by (induction T srcs ms os st rule: resolve.induct)
    (auto simp: step_defs recorded_def split: fetch_outcome.splits)

lemma resolve_calls_length:
  "pending st = None \<Longrightarrow>
   length (promise_calls (trace (resolve T srcs ms os st))) =
     length (promise_calls (trace st)) + (if pending (resolve T srcs ms os st) = None then 1 else 0)"
  by (induction T srcs ms os st rule: resolve.induct)
    (auto simp: step_defs split: fetch_outcome.splits)

lemma resolve_answered:
  "pending st = None \<Longrightarrow> length ms \<le> length os \<Longrightarrow> pending (resolve T srcs ms os st) = None"
  by (induction T srcs ms os st rule: resolve.induct)
    (auto simp: step_defs split: fetch_outcome.splits)

lemma resolve_pending:
  "pending (resolve T srcs ms os st) = Some u \<Longrightarrow> pending st = None \<Longrightarrow>
   asset (resolve T srcs ms os st) = asset st \<and>
   promise_calls (trace (resolve T srcs ms os st)) = promise_calls (trace st) \<and>
   setData_calls (trace (resolve T srcs ms os st)) = setData_calls (trace st) \<and>
   list_all (\<lambda>oc. \<not> is_success oc) os \<and> length os < length ms \<and>
   u = urlFunction (srcs ! (ms ! length os)) (asset st)"
  by (induction T srcs ms os st rule: resolve.induct)
    (auto simp: step_defs split: fetch_outcome.splits if_splits)

lemma resolve_pending_last:
  "pending (resolve T srcs ms os st) = Some u \<Longrightarrow> pending st = None \<Longrightarrow>
   last (trace (resolve T srcs ms os st)) = GotCall u"
  by (induction T srcs ms os st rule: resolve.induct)
    (auto simp: step_defs split: fetch_outcome.splits if_splits)

lemma resolve_exhausted:
  "pending st = None \<Longrightarrow> length ms \<le> length os \<Longrightarrow>
   list_all (\<lambda>oc. \<not> is_success oc) (take (length ms) os) \<Longrightarrow>
   asset (resolve T srcs ms os st) = asset st \<and>
   setData_calls (trace (resolve T srcs ms os st)) = setData_calls (trace st) \<and>
   errors (resolve T srcs ms os st) = errors st @ recorded srcs (asset st) ms os \<and>
   promise_calls (trace (resolve T srcs ms os st)) =
     promise_calls (trace st) @
       [if errors (resolve T srcs ms os st) = [] then FulfillCall None
        else RejectCall (errors (resolve T srcs ms os st))]"
  by (induction T srcs ms os st rule: resolve.induct)
    (auto simp: step_defs recorded_def split: fetch_outcome.splits)

lemma resolve_mutation:
  "pending st = None \<Longrightarrow>
   (asset (resolve T srcs ms os st) = asset st \<and>
    setData_calls (trace (resolve T srcs ms os st)) = setData_calls (trace st) \<and>
    (promise_calls (trace (resolve T srcs ms os st)) = promise_calls (trace st) \<or>
     promise_calls (trace (resolve T srcs ms os st)) = promise_calls (trace st) @ [FulfillCall None] \<or>
     promise_calls (trace (resolve T srcs ms os st)) =
       promise_calls (trace st) @ [RejectCall (errors (resolve T srcs ms os st))])) \<or>
   (\<exists>b tr. trace (resolve T srcs ms os st) =
        tr @ [SetDataCall b (runtimeFormat T), FulfillCall (Some (asset (resolve T srcs ms os st)))] \<and>
      asset (resolve T srcs ms os st) = setData (asset st) b (runtimeFormat T) \<and>
      setData_calls tr = setData_calls (trace st) \<and>
      promise_calls tr = promise_calls (trace st))"
  by (induction T srcs ms os st rule: resolve.induct)
    (auto simp: step_defs split: fetch_outcome.splits)

lemma resolve_cursor:
  "sorted_wrt (<) ms \<Longrightarrow> list_all (\<lambda>j. sourceIndex st \<le> j \<and> j < length srcs) ms \<Longrightarrow>
   list_all (\<lambda>j. j < sourceIndex st) (probes (trace st)) \<Longrightarrow> sourceIndex st \<le> length srcs \<Longrightarrow>
   list_all (\<lambda>j. j < sourceIndex (resolve T srcs ms os st)) (probes (trace (resolve T srcs ms os st))) \<and>
   sourceIndex (resolve T srcs ms os st) \<le> length srcs"
proof (induction T srcs ms os st rule: resolve.induct)
  case (1 T srcs os st)
  then show ?case by (auto simp: exhausted_def max_def list_all_iff)
next
  case (2 T srcs j js st)
  then have "list_all (\<lambda>k. k < Suc j) (probes (trace st))"
    by (auto simp: list_all_iff)
  with 2 show ?case by (simp add: probe_def)
next
  case (3 T srcs j js oc os st)
  let ?d = "dismiss (urlFunction (srcs ! j) (asset st)) oc (probe srcs j st)"
  from 3 have old: "list_all (\<lambda>k. k < Suc j) (probes (trace st))"
    by (auto simp: list_all_iff)
  from "3.prems" have pre: "sorted_wrt (<) js"
    "list_all (\<lambda>k. sourceIndex ?d \<le> k \<and> k < length srcs) js"
    "list_all (\<lambda>k. k < sourceIndex ?d) (probes (trace ?d))"
    "sourceIndex ?d \<le> length srcs"
    using old by (auto simp: step_defs list_all_iff)
  show ?case
  proof (cases oc)
    case (Error e)
    with "3.IH"(2) [OF Error pre] show ?thesis by simp
  next
    case (Response r)
    show ?thesis
    proof (cases "is_success oc")
      case True
      with Response old "3.prems" show ?thesis by (simp add: step_defs)
    next
      case False
      with Response "3.IH"(1) [OF Response False pre] show ?thesis by auto
    qed
  qed
qed

subsection \<open>Consequences for a call of load\<close>

lemma exec_sources: "this_sources this < length h \<Longrightarrow> sources (fst (exec this T i h as)) = length h"
  by (simp add: exec_resolve resolve_sources)

lemma exec_probes:
  "this_sources this < length h \<Longrightarrow>
   probes (trace (fst (exec this T i h as))) =
     take (attempts (outcomes as)) (matching (h ! this_sources this) (name T) 0)"
  by (simp add: exec_resolve resolve_probes)

lemma exec_fetches:
  "this_sources this < length h \<Longrightarrow>
   fetches (trace (fst (exec this T i h as))) =
     map (\<lambda>j. urlFunction (h ! this_sources this ! j) (new_Asset T i))
       (take (attempts (outcomes as)) (matching (h ! this_sources this) (name T) 0))"
  by (simp add: exec_resolve resolve_fetches)

lemma exec_exhausted:
  assumes alloc: "this_sources this < length h"
    and len: "length (matching (h ! this_sources this) (name T) 0) \<le> length (outcomes as)"
    and ns: "list_all (\<lambda>oc. \<not> is_success oc)
          (take (length (matching (h ! this_sources this) (name T) 0)) (outcomes as))"
  shows "errors (fst (exec this T i h as)) =
      recorded (h ! this_sources this) (new_Asset T i)
        (matching (h ! this_sources this) (name T) 0) (outcomes as)"
    and "promise_calls (trace (fst (exec this T i h as))) =
      [if errors (fst (exec this T i h as)) = [] then FulfillCall None
       else RejectCall (errors (fst (exec this T i h as)))]"
    and "probes (trace (fst (exec this T i h as))) = matching (h ! this_sources this) (name T) 0"
    and "pending (fst (exec this T i h as)) = None"
    and "asset (fst (exec this T i h as)) = new_Asset T i"
proof -
  let ?ms = "matching (h ! this_sources this) (name T) 0"
  let ?init = "initial (length h) T i"
  have R: "fst (exec this T i h as) = resolve T (h ! this_sources this) ?ms (outcomes as) ?init"
    by (rule exec_resolve [OF alloc])
  have p: "pending ?init = None" by simp
  from resolve_exhausted [OF p len ns, of T "h ! this_sources this"]
  show "errors (fst (exec this T i h as)) =
      recorded (h ! this_sources this) (new_Asset T i) ?ms (outcomes as)"
    and "promise_calls (trace (fst (exec this T i h as))) =
      [if errors (fst (exec this T i h as)) = [] then FulfillCall None
       else RejectCall (errors (fst (exec this T i h as)))]"
    and "asset (fst (exec this T i h as)) = new_Asset T i"
    by (simp_all add: R)
  from attempts_covers [OF len ns]
  show "probes (trace (fst (exec this T i h as))) = ?ms"
    by (simp add: R resolve_probes)
  from resolve_answered [OF p len] show "pending (fst (exec this T i h as)) = None"
    by (simp add: R)
qed

subsection \<open>The registry of three sources\<close>

lemma ex_alloc: "this_sources ex_helper < length ex_store"
  by (simp add: ex_helper_def ex_store_def)

lemma ex_matching_sound: "matching (ex_store ! this_sources ex_helper) (name ex_sound) 0 = [1, 2]"
  by (simp add: matching_def ex_store_def ex_helper_def ex_sound_def)

lemmas exec_eval = exec_def load_def array_slice_def alloc_def tryNextSource_def
  while_loop.simps indexOf_def got_settles_def on_response_def on_error_def addSource_def
  array_push_def new_Asset_def setData_def ex_sound_def ex_image_def ex_store_def ex_helper_def
  ex_response_def Let_def

section \<open>The properties of load\<close>

text \<open>C1. First success wins: when the outstanding fetch of a probed source settles with a
  response whose status is in \<open>[200, 300)\<close>, the promise is fulfilled with the asset
  holding exactly that response's body and \<open>assetType.runtimeFormat\<close>; these two calls
  are the last events of the call of load, so no UrlFunction is invoked and no fetch is
  issued after them, whatever happens later.\<close>

theorem load_first_success_wins:
  assumes alloc: "this_sources this < length h"
    and pend: "pending (fst (exec this assetType assetId h as1)) = Some u"
    and ok: "200 \<le> status r" "status r < 300"
  shows "let st1 = fst (exec this assetType assetId h as1);
             st2 = fst (exec this assetType assetId h (as1 @ GotSettles (Response r) # as2));
             a = setData (new_Asset assetType assetId) (body r) (runtimeFormat assetType)
         in last (trace st1) = GotCall u \<and>
            trace st2 = trace st1 @
              [SetDataCall (body r) (runtimeFormat assetType), FulfillCall (Some a)] \<and>
            probes (trace st2) = probes (trace st1) \<and>
            fetches (trace st2) = fetches (trace st1) \<and>
            promise_calls (trace st2) = [FulfillCall (Some a)] \<and>
            pending st2 = None \<and>
            asset st2 = a \<and> a_data a = Some (body r) \<and>
            a_dataFormat a = Some (runtimeFormat assetType)"
proof -
  let ?st1 = "fst (exec this assetType assetId h as1)"
  let ?h1 = "snd (exec this assetType assetId h as1)"
  let ?srcs = "h ! this_sources this"
  let ?R = "resolve assetType ?srcs (matching ?srcs (name assetType) 0) (outcomes as1)
      (initial (length h) assetType assetId)"
  have R: "?st1 = ?R"
    by (rule exec_resolve [OF alloc])
  with pend have p: "pending ?R = Some u" by simp
  from resolve_pending [OF p] resolve_pending_last [OF p] R
  have st1: "asset ?st1 = new_Asset assetType assetId" "promise_calls (trace ?st1) = []"
    "last (trace ?st1) = GotCall u"
    by simp_all
  have "exec this assetType assetId h (as1 @ GotSettles (Response r) # as2) =
      run this assetType as2 (got_settles assetType ?h1 (Response r) ?st1, ?h1)"
    by (simp add: exec_snoc prod.case_eq_if split_beta)
      (metis prod.collapse step.simps(1))
  also have "got_settles assetType ?h1 (Response r) ?st1 = succeed assetType r ?st1"
    by (rule got_settles_success [OF pend ok])
  finally have "fst (exec this assetType assetId h (as1 @ GotSettles (Response r) # as2)) =
      succeed assetType r ?st1"
    by (simp add: run_idle succeed_def)
  with st1 show ?thesis
    by (simp add: succeed_def setData_def Let_def)
qed

theorem load_first_success_wins_witness:
  "this_sources ex_helper < length ex_store \<and>
   pending (fst (exec ex_helper ex_sound ''k'' ex_store
      [GotSettles (ex_response 404), AddSource [ex_sound] (\<lambda>a. ''z'')])) = Some ''y/k'' \<and>
   trace (fst (exec ex_helper ex_sound ''k'' ex_store
      ([GotSettles (ex_response 404), AddSource [ex_sound] (\<lambda>a. ''z'')] @
        GotSettles (Response \<lparr>status = 204, body = [7]\<rparr>) #
        [GotSettles (ex_response 500)]))) =
     [UrlFunctionCall 1, GotCall ''x/k'', UrlFunctionCall 2, GotCall ''y/k'',
      SetDataCall [7] ''wav'',
      FulfillCall (Some \<lparr>a_assetType = ex_sound, a_assetId = ''k'', a_data = Some [7],
        a_dataFormat = Some ''wav''\<rparr>)]"
proof -
  have a: "this_sources ex_helper < length ex_store"
    by (simp add: ex_helper_def ex_store_def)
  have p: "pending (fst (exec ex_helper ex_sound ''k'' ex_store
      [GotSettles (ex_response 404), AddSource [ex_sound] (\<lambda>a. ''z'')])) = Some ''y/k''"
    by (simp add: exec_eval)
  have t: "trace (fst (exec ex_helper ex_sound ''k'' ex_store
      [GotSettles (ex_response 404), AddSource [ex_sound] (\<lambda>a. ''z'')])) =
      [UrlFunctionCall 1, GotCall ''x/k'', UrlFunctionCall 2, GotCall ''y/k'']"
    by (simp add: exec_eval)
  from load_first_success_wins [OF a p, of "\<lparr>status = 204, body = [7]\<rparr>" "[GotSettles (ex_response 500)]"]
  show ?thesis using a p t
    by (simp add: Let_def setData_def new_Asset_def ex_sound_def)
qed

text \<open>C2. The claim: a probed source whose fetch settles with status 404 contributes no
  entry to \<open>errors\<close>, and when the first matching source answers 404 and the second a
  status in \<open>[200, 300)\<close>, the asset comes from the second source and \<open>errors\<close> has no
  entry for the first. The first callback does leave \<open>errors\<close> alone for a response with
  status 404 (\<open>got_settles_miss\<close>), but \<open>got\<close> never fulfils with such a response
  (\<open>got_delivers_not_miss\<close>): it rejects, and the second callback records every
  rejection. In the registry of three sources, with the first matching source answering 404
  and the second 200, the promise is fulfilled from the second source, and \<open>errors\<close>
  holds an entry for the first.\<close>

theorem load_404_is_recorded:
  "errors (fst (exec ex_helper ex_sound ''k'' ex_store
      [GotSettles (got_delivers \<lparr>status = 404, body = [1, 2]\<rparr>),
       GotSettles (got_delivers \<lparr>status = 200, body = [3]\<rparr>)])) =
     [\<lparr>url = ''x/k'', result = Error ''HTTPError''\<rparr>] \<and>
   promise_calls (trace (fst (exec ex_helper ex_sound ''k'' ex_store
      [GotSettles (got_delivers \<lparr>status = 404, body = [1, 2]\<rparr>),
       GotSettles (got_delivers \<lparr>status = 200, body = [3]\<rparr>)]))) =
     [FulfillCall (Some \<lparr>a_assetType = ex_sound, a_assetId = ''k'', a_data = Some [3],
        a_dataFormat = Some ''wav''\<rparr>)]"
  by (simp add: exec_eval got_delivers_def)

text \<open>C3. When at least one source matches and the fetch of every matching source settles
  with a failure (an error of the transport, or a response whose status is outside
  \<open>[200, 300)\<close> and is not 404), the promise is rejected with the list that has one entry
  for each matching source, in the order of the probes: the URL computed by that source's
  UrlFunction and the outcome of its fetch. A response with status 500 is such a failure, so
  when every matching source answers 500 the list is as long as the list of matching
  sources.\<close>

theorem load_rejects_with_failures:
  assumes alloc: "this_sources this < length h"
    and some: "matching (h ! this_sources this) (name assetType) 0 \<noteq> []"
    and len: "length (matching (h ! this_sources this) (name assetType) 0) \<le> length (outcomes as)"
    and fail: "list_all is_failure
          (take (length (matching (h ! this_sources this) (name assetType) 0)) (outcomes as))"
  shows "let srcs = h ! this_sources this;
             ms = matching srcs (name assetType) 0;
             st = fst (exec this assetType assetId h as);
             errs = map (\<lambda>(j, oc). \<lparr>url = urlFunction (srcs ! j) (new_Asset assetType assetId),
                       result = oc\<rparr>) (zip ms (outcomes as))
         in promise_calls (trace st) = [RejectCall errs] \<and>
            probes (trace st) = ms \<and>
            length errs = length ms \<and>
            map url errs = map (\<lambda>j. urlFunction (srcs ! j) (new_Asset assetType assetId)) ms \<and>
            map result errs = take (length ms) (outcomes as) \<and>
            pending st = None"
proof -
  let ?srcs = "h ! this_sources this"
  let ?ms = "matching ?srcs (name assetType) 0"
  let ?st = "fst (exec this assetType assetId h as)"
  let ?errs = "map (\<lambda>(j, oc). \<lparr>url = urlFunction (?srcs ! j) (new_Asset assetType assetId),
      result = oc\<rparr>) (zip ?ms (outcomes as))"
  from fail have ns: "list_all (\<lambda>oc. \<not> is_success oc) (take (length ?ms) (outcomes as))"
    by (rule list_all_weaken) (rule is_failure_not_success)
  note ex = exec_exhausted [OF alloc len ns, of assetId]
  have errs: "errors ?st = ?errs"
    by (simp add: ex(1) recorded_failures [OF fail])
  from len have length: "length ?errs = length ?ms"
    by simp
  with some have "?errs \<noteq> []"
    by (metis length_0_conv)
  with errs ex(2) have calls: "promise_calls (trace ?st) = [RejectCall ?errs]"
    by simp
  have urls: "map url ?errs = map (\<lambda>j. urlFunction (?srcs ! j) (new_Asset assetType assetId)) ?ms"
  proof -
    have "map url ?errs =
        map (\<lambda>j. urlFunction (?srcs ! j) (new_Asset assetType assetId)) (map fst (zip ?ms (outcomes as)))"
      by (simp add: split_beta comp_def)
    also from len have "map fst (zip ?ms (outcomes as)) = ?ms"
      by (simp add: map_fst_zip_take min_def)
    finally show ?thesis .
  qed
  have results: "map result ?errs = take (length ?ms) (outcomes as)"
  proof -
    have "map result ?errs = map snd (zip ?ms (outcomes as))"
      by (simp add: split_beta comp_def)
    also from len have "\<dots> = take (length ?ms) (outcomes as)"
      by (simp add: map_snd_zip_take min_def)
    finally show ?thesis .
  qed
  from calls ex(3) length urls results ex(4) show ?thesis
    by (simp only: Let_def simp_thms)
qed

theorem load_rejects_with_failures_witness:
  "this_sources ex_helper < length ex_store \<and>
   matching (ex_store ! this_sources ex_helper) (name ex_sound) 0 \<noteq> [] \<and>
   length (matching (ex_store ! this_sources ex_helper) (name ex_sound) 0) \<le>
     length (outcomes [GotSettles (ex_response 500), AddSource [ex_sound] (\<lambda>a. ''z''),
       GotSettles (Error ''timeout'')]) \<and>
   list_all is_failure
     (take (length (matching (ex_store ! this_sources ex_helper) (name ex_sound) 0))
       (outcomes [GotSettles (ex_response 500), AddSource [ex_sound] (\<lambda>a. ''z''),
          GotSettles (Error ''timeout'')])) \<and>
   promise_calls (trace (fst (exec ex_helper ex_sound ''k'' ex_store
      [GotSettles (ex_response 500), AddSource [ex_sound] (\<lambda>a. ''z''),
       GotSettles (Error ''timeout'')]))) =
     [RejectCall [\<lparr>url = ''x/k'', result = ex_response 500\<rparr>,
                  \<lparr>url = ''y/k'', result = Error ''timeout''\<rparr>]] \<and>
   probes (trace (fst (exec ex_helper ex_sound ''k'' ex_store
      [GotSettles (ex_response 500), AddSource [ex_sound] (\<lambda>a. ''z''),
       GotSettles (Error ''timeout'')]))) = [1, 2]"
proof -
  let ?as = "[GotSettles (ex_response 500), AddSource [ex_sound] (\<lambda>a. ''z''),
       GotSettles (Error ''timeout'')]"
  have s: "matching (ex_store ! this_sources ex_helper) (name ex_sound) 0 \<noteq> []"
    by (simp add: ex_matching_sound)
  have l: "length (matching (ex_store ! this_sources ex_helper) (name ex_sound) 0) \<le>
      length (outcomes ?as)"
    by (simp add: ex_matching_sound)
  have f: "list_all is_failure
      (take (length (matching (ex_store ! this_sources ex_helper) (name ex_sound) 0)) (outcomes ?as))"
    by (simp add: ex_matching_sound is_failure_def ex_response_def)
  have u: "urlFunction (ex_store ! this_sources ex_helper ! 1) (new_Asset ex_sound ''k'') = ''x/k''"
    "urlFunction (ex_store ! this_sources ex_helper ! 2) (new_Asset ex_sound ''k'') = ''y/k''"
    by (simp_all add: ex_store_def ex_helper_def new_Asset_def)
  from load_rejects_with_failures [OF ex_alloc s l f, of "''k''"] u
  show ?thesis using ex_alloc s l f
    by (simp add: Let_def ex_matching_sound)
qed

text \<open>C4. The claim: when at least one source matches and every matching source answers
  404, the promise is fulfilled with null and not rejected. A 404 reaches the code as a
  rejection of \<open>got\<close> (\<open>got_delivers_404\<close>), which the second callback records. In the
  registry of three sources, with both matching sources answering 404, \<open>fulfill\<close> is not
  called: the promise is rejected with one entry for each of the two sources.\<close>

theorem load_all_404_rejects:
  "promise_calls (trace (fst (exec ex_helper ex_sound ''k'' ex_store
      [GotSettles (got_delivers \<lparr>status = 404, body = [1, 2]\<rparr>),
       GotSettles (got_delivers \<lparr>status = 404, body = [1, 2]\<rparr>)]))) =
     [RejectCall [\<lparr>url = ''x/k'', result = Error ''HTTPError''\<rparr>,
                  \<lparr>url = ''y/k'', result = Error ''HTTPError''\<rparr>]]"
  by (simp add: exec_eval got_delivers_def)

text \<open>C5. When no source of the registry has \<open>assetType.name\<close> among its types, the only
  event of the call of load is \<open>fulfill(null)\<close>, already when load returns: no
  UrlFunction is invoked and \<open>got\<close> is not called.\<close>

theorem load_no_matching_source:
  assumes alloc: "this_sources this < length h"
    and none: "list_all (\<lambda>s. name assetType \<notin> set (types s)) (h ! this_sources this)"
  shows "let st = fst (exec this assetType assetId h as)
         in trace st = [FulfillCall None] \<and>
            fetches (trace st) = [] \<and> probes (trace st) = [] \<and>
            pending st = None \<and> errors st = [] \<and>
            st = fst (load this assetType assetId h)"
proof -
  from none have m: "matching (h ! this_sources this) (name assetType) 0 = []"
    by (rule matching_none)
  have "fst (exec this assetType assetId h bs) =
      exhausted (length (h ! this_sources this)) (initial (length h) assetType assetId)" for bs
    by (simp add: exec_resolve [OF alloc] m)
  from this [of as] this [of "[]"] show ?thesis
    by (simp add: Let_def exhausted_def exec_def)
qed

theorem load_no_matching_source_witness:
  "this_sources ex_helper < length ex_store \<and>
   list_all (\<lambda>s. name ex_project \<notin> set (types s)) (ex_store ! this_sources ex_helper) \<and>
   trace (fst (exec ex_helper ex_project ''p'' ex_store [GotSettles (ex_response 200)])) =
     [FulfillCall None] \<and>
   fetches (trace (fst (exec ex_helper ex_project ''p'' ex_store [GotSettles (ex_response 200)]))) = [] \<and>
   trace (fst (load ex_helper ex_project ''p'' ex_store)) = [FulfillCall None]"
proof -
  have n: "list_all (\<lambda>s. name ex_project \<notin> set (types s)) (ex_store ! this_sources ex_helper)"
    by (simp add: ex_project_def ex_store_def ex_helper_def)
  from load_no_matching_source [OF ex_alloc n, of "''p''" "[GotSettles (ex_response 200)]", unfolded Let_def]
  show ?thesis using ex_alloc n
    by metis
qed

text \<open>C6. A registered source whose types do not contain \<open>assetType.name\<close> is never
  probed, whatever the outcome of the call: its UrlFunction is not invoked, and every URL
  that is fetched is the one computed by a probed source, all of which match. The probed
  sources are an initial part of the matching ones, so they are probed in increasing order
  of their index.\<close>

theorem load_probes_only_matching:
  assumes alloc: "this_sources this < length h"
    and reg: "i < length (h ! this_sources this)"
    and other: "name assetType \<notin> set (types (h ! this_sources this ! i))"
  shows "let srcs = h ! this_sources this;
             st = fst (exec this assetType assetId h as)
         in UrlFunctionCall i \<notin> set (trace st) \<and>
            fetches (trace st) =
              map (\<lambda>j. urlFunction (srcs ! j) (new_Asset assetType assetId)) (probes (trace st)) \<and>
            list_all (\<lambda>j. j < length srcs \<and> name assetType \<in> set (types (srcs ! j)))
              (probes (trace st)) \<and>
            sorted_wrt (<) (probes (trace st)) \<and>
            probes (trace st) = take (length (probes (trace st))) (matching srcs (name assetType) 0)"
proof -
  let ?srcs = "h ! this_sources this"
  let ?ms = "matching ?srcs (name assetType) 0"
  let ?st = "fst (exec this assetType assetId h as)"
  have p: "probes (trace ?st) = take (attempts (outcomes as)) ?ms"
    by (rule exec_probes [OF alloc])
  have sub: "set (probes (trace ?st)) \<subseteq> set ?ms"
    unfolding p by (rule set_take_subset)
  from other have "i \<notin> set ?ms"
    by (simp add: matching_set)
  with sub have never: "UrlFunctionCall i \<notin> set (trace ?st)"
    by (auto simp: in_probes)
  have urls: "fetches (trace ?st) =
      map (\<lambda>j. urlFunction (?srcs ! j) (new_Asset assetType assetId)) (probes (trace ?st))"
    by (simp add: exec_fetches [OF alloc] p)
  from sub have all: "list_all (\<lambda>j. j < length ?srcs \<and> name assetType \<in> set (types (?srcs ! j)))
      (probes (trace ?st))"
    by (auto simp: list_all_iff matching_set)
  have sorted: "sorted_wrt (<) (probes (trace ?st))"
    unfolding p by (rule sorted_wrt_take) (rule matching_sorted)
  have pre: "probes (trace ?st) = take (length (probes (trace ?st))) ?ms"
    by (simp add: p min_def)
  from never urls all sorted pre show ?thesis
    by (simp only: Let_def simp_thms)
qed

theorem load_probes_only_matching_witness:
  "this_sources ex_helper < length ex_store \<and>
   0 < length (ex_store ! this_sources ex_helper) \<and>
   name ex_sound \<notin> set (types (ex_store ! this_sources ex_helper ! 0)) \<and>
   UrlFunctionCall 0 \<notin> set (trace (fst (exec ex_helper ex_sound ''k'' ex_store
      [GotSettles (ex_response 500), GotSettles (ex_response 200)]))) \<and>
   fetches (trace (fst (exec ex_helper ex_sound ''k'' ex_store
      [GotSettles (ex_response 500), GotSettles (ex_response 200)]))) = [''x/k'', ''y/k''] \<and>
   probes (trace (fst (exec ex_helper ex_sound ''k'' ex_store
      [GotSettles (ex_response 500), GotSettles (ex_response 200)]))) = [1, 2]"
proof -
  let ?as = "[GotSettles (ex_response 500), GotSettles (ex_response 200)]"
  have r: "0 < length (ex_store ! this_sources ex_helper)"
    by (simp add: ex_store_def ex_helper_def)
  have o: "name ex_sound \<notin> set (types (ex_store ! this_sources ex_helper ! 0))"
    by (simp add: ex_store_def ex_helper_def ex_sound_def)
  have p: "probes (trace (fst (exec ex_helper ex_sound ''k'' ex_store ?as))) = [1, 2]"
    by (simp add: exec_eval)
  have u: "urlFunction (ex_store ! this_sources ex_helper ! 1) (new_Asset ex_sound ''k'') = ''x/k''"
    "urlFunction (ex_store ! this_sources ex_helper ! 2) (new_Asset ex_sound ''k'') = ''y/k''"
    by (simp_all add: ex_store_def ex_helper_def new_Asset_def)
  from load_probes_only_matching [OF ex_alloc r o, of "''k''" ?as] p u
  show ?thesis using ex_alloc r o
    by (simp add: Let_def)
qed

text \<open>C7. A call of load settles exactly once, after at most as many fetches as the copied
  array has sources: \<open>fulfill\<close> and \<open>reject\<close> are called at most once together, exactly
  once as soon as no fetch is outstanding, which is the case at the latest when as many
  fetches have settled as there are sources. The indices probed increase strictly, each is
  below \<open>sourceIndex\<close>, and \<open>sourceIndex\<close> never decreases and never exceeds the length
  of the array.\<close>

theorem load_settles_once:
  assumes alloc: "this_sources this < length h"
  shows "let srcs = h ! this_sources this;
             st = fst (exec this assetType assetId h as)
         in length (promise_calls (trace st)) \<le> 1 \<and>
            (length (promise_calls (trace st)) = 1) = (pending st = None) \<and>
            (length srcs \<le> length (outcomes as) \<longrightarrow> pending st = None) \<and>
            length (fetches (trace st)) \<le> length srcs \<and>
            sorted_wrt (<) (probes (trace st)) \<and>
            list_all (\<lambda>j. j < sourceIndex st) (probes (trace st)) \<and>
            sourceIndex st \<le> length srcs \<and>
            sourceIndex st \<le> sourceIndex (fst (exec this assetType assetId h (as @ bs)))"
proof -
  let ?srcs = "h ! this_sources this"
  let ?ms = "matching ?srcs (name assetType) 0"
  let ?init = "initial (length h) assetType assetId"
  let ?st = "fst (exec this assetType assetId h as)"
  have R: "?st = resolve assetType ?srcs ?ms (outcomes as) ?init"
    by (rule exec_resolve [OF alloc])
  have p: "pending ?init = None" by simp
  from resolve_calls_length [OF p, of assetType ?srcs ?ms "outcomes as"]
  have calls: "length (promise_calls (trace ?st)) = (if pending ?st = None then 1 else 0)"
    by (simp add: R)
  then have once: "length (promise_calls (trace ?st)) \<le> 1"
    and iff: "(length (promise_calls (trace ?st)) = 1) = (pending ?st = None)"
    by (simp_all split: if_splits)
  have answered: "length ?srcs \<le> length (outcomes as) \<longrightarrow> pending ?st = None"
  proof
    assume "length ?srcs \<le> length (outcomes as)"
    with matching_length [of ?srcs "name assetType" 0]
    have "length ?ms \<le> length (outcomes as)" by simp
    from resolve_answered [OF p this] show "pending ?st = None"
      by (simp add: R)
  qed
  have "length (fetches (trace ?st)) \<le> length ?ms"
    by (simp add: exec_fetches [OF alloc])
  with matching_length [of ?srcs "name assetType" 0]
  have bound: "length (fetches (trace ?st)) \<le> length ?srcs"
    by simp
  have sorted: "sorted_wrt (<) (probes (trace ?st))"
    unfolding exec_probes [OF alloc] by (rule sorted_wrt_take) (rule matching_sorted)
  have "list_all (\<lambda>j. sourceIndex ?init \<le> j \<and> j < length ?srcs) ?ms"
    by (simp add: list_all_iff matching_set)
  from resolve_cursor [OF matching_sorted this, of assetType "outcomes as"]
  have cursor: "list_all (\<lambda>j. j < sourceIndex ?st) (probes (trace ?st))"
    "sourceIndex ?st \<le> length ?srcs"
    by (simp_all add: R)
  have "sourceIndex ?st \<le> sourceIndex
      (fst (run this assetType bs (?st, snd (exec this assetType assetId h as))))"
    by (rule run_sourceIndex)
  then have mono: "sourceIndex ?st \<le> sourceIndex (fst (exec this assetType assetId h (as @ bs)))"
    by (simp add: exec_append)
  from once iff answered bound sorted cursor mono show ?thesis
    by (simp only: Let_def simp_thms)
qed

theorem load_settles_once_witness:
  "this_sources ex_helper < length ex_store \<and>
   length (ex_store ! this_sources ex_helper) \<le>
     length (outcomes [GotSettles (ex_response 404), GotSettles (ex_response 500),
       GotSettles (ex_response 200)]) \<and>
   pending (fst (exec ex_helper ex_sound ''k'' ex_store
      [GotSettles (ex_response 404), GotSettles (ex_response 500),
       GotSettles (ex_response 200)])) = None \<and>
   length (promise_calls (trace (fst (exec ex_helper ex_sound ''k'' ex_store
      [GotSettles (ex_response 404), GotSettles (ex_response 500),
       GotSettles (ex_response 200)])))) = 1 \<and>
   length (fetches (trace (fst (exec ex_helper ex_sound ''k'' ex_store
      [GotSettles (ex_response 404), GotSettles (ex_response 500),
       GotSettles (ex_response 200)])))) \<le> 3"
proof -
  let ?as = "[GotSettles (ex_response 404), GotSettles (ex_response 500),
       GotSettles (ex_response 200)]"
  have n: "length (ex_store ! this_sources ex_helper) = 3"
    by (simp add: ex_store_def ex_helper_def)
  then have l: "length (ex_store ! this_sources ex_helper) \<le> length (outcomes ?as)"
    by simp
  from load_settles_once [OF ex_alloc, of ex_sound "''k''" ?as "[]", unfolded Let_def] l n
  show ?thesis using ex_alloc
    by simp
qed

text \<open>C8. \<open>setData\<close> is called at most once. Either it was never called, the asset is as
  it was constructed, and the promise is pending, fulfilled with null or rejected; or the
  last two events are \<open>setData(body, assetType.runtimeFormat)\<close> and \<open>fulfill(asset)\<close>,
  with the asset holding both the body and the format, and nothing was set or settled
  before.\<close>

theorem load_populates_at_most_once:
  assumes alloc: "this_sources this < length h"
  shows "let st = fst (exec this assetType assetId h as);
             a0 = new_Asset assetType assetId
         in length (setData_calls (trace st)) \<le> 1 \<and>
            ((setData_calls (trace st) = [] \<and> asset st = a0 \<and>
              (promise_calls (trace st) = [] \<or> promise_calls (trace st) = [FulfillCall None] \<or>
               promise_calls (trace st) = [RejectCall (errors st)])) \<or>
             (\<exists>b tr. trace st =
                  tr @ [SetDataCall b (runtimeFormat assetType), FulfillCall (Some (asset st))] \<and>
                setData_calls tr = [] \<and> promise_calls tr = [] \<and>
                setData_calls (trace st) = [(b, runtimeFormat assetType)] \<and>
                promise_calls (trace st) = [FulfillCall (Some (asset st))] \<and>
                asset st = setData a0 b (runtimeFormat assetType) \<and>
                a_data (asset st) = Some b \<and>
                a_dataFormat (asset st) = Some (runtimeFormat assetType)))"
proof -
  let ?st = "fst (exec this assetType assetId h as)"
  let ?a0 = "new_Asset assetType assetId"
  let ?init = "initial (length h) assetType assetId"
  have R: "?st = resolve assetType (h ! this_sources this)
      (matching (h ! this_sources this) (name assetType) 0) (outcomes as) ?init"
    by (rule exec_resolve [OF alloc])
  have p: "pending ?init = None" by simp
  from resolve_mutation [OF p, of assetType "h ! this_sources this"
      "matching (h ! this_sources this) (name assetType) 0" "outcomes as"]
  have cases: "(asset ?st = ?a0 \<and> setData_calls (trace ?st) = [] \<and>
      (promise_calls (trace ?st) = [] \<or> promise_calls (trace ?st) = [FulfillCall None] \<or>
       promise_calls (trace ?st) = [RejectCall (errors ?st)])) \<or>
     (\<exists>b tr. trace ?st =
          tr @ [SetDataCall b (runtimeFormat assetType), FulfillCall (Some (asset ?st))] \<and>
        asset ?st = setData ?a0 b (runtimeFormat assetType) \<and>
        setData_calls tr = [] \<and> promise_calls tr = [])"
    by (simp add: R [symmetric])
  then show ?thesis
  proof
    assume "asset ?st = ?a0 \<and> setData_calls (trace ?st) = [] \<and>
      (promise_calls (trace ?st) = [] \<or> promise_calls (trace ?st) = [FulfillCall None] \<or>
       promise_calls (trace ?st) = [RejectCall (errors ?st)])"
    then show ?thesis
      by (simp add: Let_def)
  next
    assume "\<exists>b tr. trace ?st =
          tr @ [SetDataCall b (runtimeFormat assetType), FulfillCall (Some (asset ?st))] \<and>
        asset ?st = setData ?a0 b (runtimeFormat assetType) \<and>
        setData_calls tr = [] \<and> promise_calls tr = []"
    then obtain b tr where tr: "trace ?st =
          tr @ [SetDataCall b (runtimeFormat assetType), FulfillCall (Some (asset ?st))]"
      and a: "asset ?st = setData ?a0 b (runtimeFormat assetType)"
      and e: "setData_calls tr = []" "promise_calls tr = []"
      by blast
    have s: "setData_calls (trace ?st) = [(b, runtimeFormat assetType)]"
      by (subst tr) (simp add: e)
    have c: "promise_calls (trace ?st) = [FulfillCall (Some (asset ?st))]"
      by (subst tr) (simp add: e)
    have d: "a_data (asset ?st) = Some b" "a_dataFormat (asset ?st) = Some (runtimeFormat assetType)"
      by (simp_all add: a setData_def)
    have "\<exists>b tr. trace ?st =
          tr @ [SetDataCall b (runtimeFormat assetType), FulfillCall (Some (asset ?st))] \<and>
        setData_calls tr = [] \<and> promise_calls tr = [] \<and>
        setData_calls (trace ?st) = [(b, runtimeFormat assetType)] \<and>
        promise_calls (trace ?st) = [FulfillCall (Some (asset ?st))] \<and>
        asset ?st = setData ?a0 b (runtimeFormat assetType) \<and>
        a_data (asset ?st) = Some b \<and>
        a_dataFormat (asset ?st) = Some (runtimeFormat assetType)"
      using tr e s c a d by blast
    moreover from s have "length (setData_calls (trace ?st)) \<le> 1"
      by simp
    ultimately show ?thesis
      by (simp only: Let_def simp_thms)
  qed
qed

theorem load_populates_at_most_once_witness:
  "this_sources ex_helper < length ex_store \<and>
   length (setData_calls (trace (fst (exec ex_helper ex_sound ''k'' ex_store
      [GotSettles (ex_response 500), GotSettles (Response \<lparr>status = 200, body = [7]\<rparr>)])))) \<le> 1 \<and>
   setData_calls (trace (fst (exec ex_helper ex_sound ''k'' ex_store
      [GotSettles (ex_response 500), GotSettles (Response \<lparr>status = 200, body = [7]\<rparr>)]))) =
     [([7], ''wav'')] \<and>
   asset (fst (exec ex_helper ex_sound ''k'' ex_store
      [GotSettles (ex_response 500), GotSettles (Response \<lparr>status = 200, body = [7]\<rparr>)])) =
     \<lparr>a_assetType = ex_sound, a_assetId = ''k'', a_data = Some [7], a_dataFormat = Some ''wav''\<rparr> \<and>
   setData_calls (trace (fst (exec ex_helper ex_sound ''k'' ex_store
      [GotSettles (ex_response 500), GotSettles (ex_response 404)]))) = [] \<and>
   asset (fst (exec ex_helper ex_sound ''k'' ex_store
      [GotSettles (ex_response 500), GotSettles (ex_response 404)])) = new_Asset ex_sound ''k''"
proof -
  let ?ok = "[GotSettles (ex_response 500), GotSettles (Response \<lparr>status = 200, body = [7]\<rparr>)]"
  let ?ko = "[GotSettles (ex_response 500), GotSettles (ex_response 404)]"
  have s: "setData_calls (trace (fst (exec ex_helper ex_sound ''k'' ex_store ?ok))) = [([7], ''wav'')]"
    by (simp add: exec_eval)
  have n: "setData_calls (trace (fst (exec ex_helper ex_sound ''k'' ex_store ?ko))) = []"
    by (simp add: exec_eval)
  from load_populates_at_most_once [OF ex_alloc, of ex_sound "''k''" ?ok, unfolded Let_def] s
  have ok: "length (setData_calls (trace (fst (exec ex_helper ex_sound ''k'' ex_store ?ok)))) \<le> 1"
    "asset (fst (exec ex_helper ex_sound ''k'' ex_store ?ok)) =
       setData (new_Asset ex_sound ''k'') [7] ''wav''"
    by auto
  from load_populates_at_most_once [OF ex_alloc, of ex_sound "''k''" ?ko, unfolded Let_def] n
  have ko: "asset (fst (exec ex_helper ex_sound ''k'' ex_store ?ko)) = new_Asset ex_sound ''k''"
    by auto
  from ok ko s n ex_alloc show ?thesis
    by (simp add: setData_def new_Asset_def)
qed

text \<open>C9. A call of load works on the copy of the sources made when it is invoked: its state
  depends only on what its fetches settle with, not on the calls of \<open>addSource\<close> made in
  between; the copy is another array than \<open>this.sources\<close> and keeps the entries present
  at the call, in their order, while \<open>this.sources\<close> grows; the sources probed are an
  initial part of the matching entries of that copy.\<close>

theorem load_uses_snapshot:
  assumes alloc: "this_sources this < length h"
  shows "let st = fst (exec this assetType assetId h as);
             h' = snd (exec this assetType assetId h as)
         in st = fst (exec this assetType assetId h (map GotSettles (outcomes as))) \<and>
            sources st \<noteq> this_sources this \<and>
            h' ! sources st = h ! this_sources this \<and>
            h' ! this_sources this = h ! this_sources this @ added as \<and>
            probes (trace st) =
              take (length (probes (trace st))) (matching (h ! this_sources this) (name assetType) 0)"
proof -
  let ?st = "fst (exec this assetType assetId h as)"
  let ?h' = "snd (exec this assetType assetId h as)"
  have same: "?st = fst (exec this assetType assetId h (map GotSettles (outcomes as)))"
    by (simp add: exec_resolve [OF alloc])
  have s: "sources ?st = length h"
    by (rule exec_sources [OF alloc])
  with alloc have distinct: "sources ?st \<noteq> this_sources this"
    by simp
  from alloc have copy: "?h' ! sources ?st = h ! this_sources this"
    by (simp add: s exec_store)
  from alloc have live: "?h' ! this_sources this = h ! this_sources this @ added as"
    by (simp add: exec_store)
  have pre: "probes (trace ?st) =
      take (length (probes (trace ?st))) (matching (h ! this_sources this) (name assetType) 0)"
    by (simp add: exec_probes [OF alloc] min_def)
  from same distinct copy live pre show ?thesis
    by (simp only: Let_def simp_thms)
qed

theorem load_uses_snapshot_witness:
  "this_sources ex_helper < length ex_store \<and>
   fst (exec ex_helper ex_sound ''k'' ex_store
      [AddSource [ex_sound] (\<lambda>a. ''z''), GotSettles (ex_response 404),
       AddSource [ex_sound] (\<lambda>a. ''w''), GotSettles (ex_response 404)]) =
   fst (exec ex_helper ex_sound ''k'' ex_store
      [GotSettles (ex_response 404), GotSettles (ex_response 404)]) \<and>
   probes (trace (fst (exec ex_helper ex_sound ''k'' ex_store
      [AddSource [ex_sound] (\<lambda>a. ''z''), GotSettles (ex_response 404),
       AddSource [ex_sound] (\<lambda>a. ''w''), GotSettles (ex_response 404)]))) = [1, 2] \<and>
   length (snd (exec ex_helper ex_sound ''k'' ex_store
      [AddSource [ex_sound] (\<lambda>a. ''z''), GotSettles (ex_response 404),
       AddSource [ex_sound] (\<lambda>a. ''w''), GotSettles (ex_response 404)]) ! this_sources ex_helper) = 5"
proof -
  let ?as = "[AddSource [ex_sound] (\<lambda>a. ''z''), GotSettles (ex_response 404),
       AddSource [ex_sound] (\<lambda>a. ''w''), GotSettles (ex_response 404)]"
  have n: "length (ex_store ! this_sources ex_helper) = 3"
    by (simp add: ex_store_def ex_helper_def)
  have p: "probes (trace (fst (exec ex_helper ex_sound ''k'' ex_store
      [GotSettles (ex_response 404), GotSettles (ex_response 404)]))) = [1, 2]"
    by (simp add: exec_eval)
  from load_uses_snapshot [OF ex_alloc, of ex_sound "''k''" ?as, unfolded Let_def] n p
  show ?thesis using ex_alloc
    by simp
qed

text \<open>C10. load does not modify the registry: at its return, and after any sequence of
  settled fetches, the store is the old one with the copy added, so \<open>this.sources\<close>
  holds the same entries in the same order. Only the calls of \<open>addSource\<close> change it:
  each appends one record at the end of \<open>this.sources\<close> and leaves the existing entries
  and every other array as they were.\<close>

theorem load_preserves_registry:
  assumes alloc: "this_sources this < length h"
  shows "snd (load this assetType assetId h) = h @ [h ! this_sources this] \<and>
         snd (exec this assetType assetId h (map GotSettles os)) = h @ [h ! this_sources this] \<and>
         snd (exec this assetType assetId h (map GotSettles os)) ! this_sources this =
           h ! this_sources this \<and>
         snd (exec this assetType assetId h as) ! this_sources this =
           h ! this_sources this @ added as \<and>
         addSource this tys f h ! this_sources this =
           h ! this_sources this @ [\<lparr>types = map name tys, urlFunction = f\<rparr>] \<and>
         length (addSource this tys f h) = length h \<and>
         (addSource this tys f h)[this_sources this := h ! this_sources this] = h"
proof -
  have l: "snd (load this assetType assetId h) = h @ [h ! this_sources this]"
    by (simp add: load_eq)
  from alloc have e: "snd (exec this assetType assetId h (map GotSettles os)) =
      h @ [h ! this_sources this]"
    by (simp add: exec_store list_update_append1)
  from alloc have k: "snd (exec this assetType assetId h (map GotSettles os)) ! this_sources this =
      h ! this_sources this"
    by (simp add: e nth_append)
  from alloc have g: "snd (exec this assetType assetId h as) ! this_sources this =
      h ! this_sources this @ added as"
    by (simp add: exec_store)
  have r: "(addSource this tys f h)[this_sources this := h ! this_sources this] = h"
    by (simp add: addSource_def array_push_def)
  from l e k g addSource_self [OF alloc] addSource_length r show ?thesis
    by (simp only: simp_thms)
qed

theorem load_preserves_registry_witness:
  "this_sources ex_helper < length ex_store \<and>
   snd (load ex_helper ex_sound ''k'' ex_store) ! this_sources ex_helper =
     ex_store ! this_sources ex_helper \<and>
   snd (exec ex_helper ex_sound ''k'' ex_store
      (map GotSettles [ex_response 500, ex_response 200])) ! this_sources ex_helper =
     ex_store ! this_sources ex_helper \<and>
   length (addSource ex_helper [ex_sound, ex_image] (\<lambda>a. ''z'') ex_store ! this_sources ex_helper) = 4 \<and>
   types (last (addSource ex_helper [ex_sound, ex_image] (\<lambda>a. ''z'') ex_store ! this_sources ex_helper)) =
     [''Sound'', ''Image'']"
proof -
  have n: "length (ex_store ! this_sources ex_helper) = 3"
    by (simp add: ex_store_def ex_helper_def)
  from load_preserves_registry [OF ex_alloc, of ex_sound "''k''" "[ex_response 500, ex_response 200]"
      "[]" "[ex_sound, ex_image]" "\<lambda>a. ''z''"] n
  show ?thesis using ex_alloc
    by (simp add: nth_append ex_sound_def ex_image_def)
qed

end
